theory Spec2Isabelle
  imports Complex_Main "HOL-Library.Sublist" "HOL-Library.Product_Lexorder"
begin

section \<open>Python values used by \<^verbatim>\<open>sieve/arxiv.py\<close>\<close>

text \<open>
  A Python \<^verbatim>\<open>str\<close> is a sequence of Unicode code points, so a character is modelled by
  its code point and a string by a list of them; \<open>lit\<close> embeds a literal of the source.
  Python's \<^verbatim>\<open>int\<close> is unbounded and is modelled by \<open>int\<close>. The exceptions that the
  functions below can raise are values of \<open>error\<close>; a computation that can raise returns
  \<open>error + 'a\<close>.
\<close>

type_synonym pystr = "nat list"

definition lit :: "string \<Rightarrow> pystr" where
  "lit s = map of_char s"

datatype error = ValueError | TypeError | KeyError

definition bind :: "error + 'a \<Rightarrow> ('a \<Rightarrow> error + 'b) \<Rightarrow> error + 'b" where
  "bind r f = (case r of Inl e \<Rightarrow> Inl e | Inr v \<Rightarrow> f v)"

text \<open>
  \<^verbatim>\<open>s.replace(old, new)\<close>: every non-overlapping occurrence of \<open>old\<close>, scanning from the
  left, is replaced by \<open>new\<close>; for an empty \<open>old\<close>, \<open>new\<close> is inserted before every character
  and at the end.
\<close>

function str_replace :: "'a list \<Rightarrow> 'a list \<Rightarrow> 'a list \<Rightarrow> 'a list" where
  "str_replace old new s =
     (if old = [] then
        (case s of [] \<Rightarrow> new | c # cs \<Rightarrow> new @ c # str_replace old new cs)
      else if s = [] then []
      else if prefix old s then new @ str_replace old new (drop (length old) s)
      else hd s # str_replace old new (tl s))"
  by pat_completeness auto
termination
  by (relation "measure (\<lambda>(old, new, s). length s)") auto

declare str_replace.simps [simp del]

text \<open>
  The characters that \<^verbatim>\<open>str.split()\<close> treats as whitespace: the code points for which
  \<^verbatim>\<open>str.isspace\<close> holds.
\<close>

definition is_space :: "nat \<Rightarrow> bool" where
  "is_space c \<longleftrightarrow>
     (9 \<le> c \<and> c \<le> 13) \<or> (28 \<le> c \<and> c \<le> 32) \<or> c = 133 \<or> c = 160 \<or> c = 5760 \<or>
     (8192 \<le> c \<and> c \<le> 8202) \<or> c = 8232 \<or> c = 8233 \<or> c = 8239 \<or> c = 8287 \<or>
     c = 12288"

text \<open>\<^verbatim>\<open>s.split()\<close> without arguments: the maximal runs of non-whitespace characters.\<close>

function split :: "pystr \<Rightarrow> pystr list" where
  "split [] = []"
| "split (c # cs) =
     (if is_space c then split cs
      else (c # takeWhile (\<lambda>x. \<not> is_space x) cs) #
           split (dropWhile (\<lambda>x. \<not> is_space x) cs))"
  by pat_completeness auto
termination
  by (relation "measure length") (auto simp: less_Suc_eq_le length_dropWhile_le)

text \<open>\<^verbatim>\<open>sep.join(xs)\<close>.\<close>

fun join :: "'a list \<Rightarrow> 'a list list \<Rightarrow> 'a list" where
  "join sep [] = []"
| "join sep [x] = x"
| "join sep (x # y # ys) = x @ sep @ join sep (y # ys)"

text \<open>\<^verbatim>\<open>str(i)\<close> for an integer, as the f-string of \<^verbatim>\<open>search_url\<close> formats it.\<close>

fun digits :: "nat \<Rightarrow> pystr" where
  "digits n = (if n < 10 then [48 + n] else digits (n div 10) @ [48 + n mod 10])"

declare digits.simps [simp del]

definition str_of_int :: "int \<Rightarrow> pystr" where
  "str_of_int i = (if i < 0 then 45 # digits (nat (- i)) else digits (nat i))"

text \<open>\<^verbatim>\<open>min(a, 1000)\<close> where \<open>a\<close> may be \<^verbatim>\<open>None\<close>: comparing an integer with \<^verbatim>\<open>None\<close>
  raises \<^verbatim>\<open>TypeError\<close>.\<close>

definition py_min :: "int option \<Rightarrow> int \<Rightarrow> error + int" where
  "py_min a b = (case a of None \<Rightarrow> Inl TypeError | Some x \<Rightarrow> Inr (min x b))"

text \<open>
  A naive \<^verbatim>\<open>datetime\<close>: year, month, day, hour, minute, second, microsecond. Python
  compares two of them field by field in this order, which is the lexicographic order of
  the tuple. \<open>datetime args\<close> is the call \<^verbatim>\<open>datetime(*args)\<close> with at most six
  arguments: the first three are required, the others default to 0, and a field out of
  range raises \<^verbatim>\<open>ValueError\<close>.
\<close>

type_synonym datetime = "int \<times> int \<times> int \<times> int \<times> int \<times> int \<times> int"

definition is_leap :: "int \<Rightarrow> bool" where
  "is_leap year \<longleftrightarrow> year mod 4 = 0 \<and> (year mod 100 \<noteq> 0 \<or> year mod 400 = 0)"

definition days_in_month :: "int \<Rightarrow> int \<Rightarrow> int" where
  "days_in_month year month =
     (if month = 2 then (if is_leap year then 29 else 28)
      else if month = 4 \<or> month = 6 \<or> month = 9 \<or> month = 11 then 30
      else 31)"

definition arg_or :: "int list \<Rightarrow> nat \<Rightarrow> int \<Rightarrow> int" where
  "arg_or args i d = (if i < length args then args ! i else d)"

definition valid_fields :: "int \<Rightarrow> int \<Rightarrow> int \<Rightarrow> int \<Rightarrow> int \<Rightarrow> int \<Rightarrow> bool" where
  "valid_fields year month day hour minute second \<longleftrightarrow>
     1 \<le> year \<and> year \<le> 9999 \<and> 1 \<le> month \<and> month \<le> 12 \<and>
     1 \<le> day \<and> day \<le> days_in_month year month \<and>
     0 \<le> hour \<and> hour \<le> 23 \<and> 0 \<le> minute \<and> minute \<le> 59 \<and> 0 \<le> second \<and> second \<le> 59"

definition datetime :: "int list \<Rightarrow> error + datetime" where
  "datetime args =
     (if length args < 3 then Inl TypeError
      else
        let year = args ! 0; month = args ! 1; day = args ! 2;
            hour = arg_or args 3 0; minute = arg_or args 4 0; second = arg_or args 5 0
        in if valid_fields year month day hour minute second
           then Inr (year, month, day, hour, minute, second, 0)
           else Inl ValueError)"

section \<open>The data model\<close>

text \<open>
  \<^verbatim>\<open>models.Paper\<close>. A feed entry is a dictionary; the keys that the code reads are the
  fields of \<open>entry\<close>, and a key that is missing is \<open>None\<close>, so that reading it raises
  \<^verbatim>\<open>KeyError\<close> (\<open>getitem\<close>).
\<close>

record paper =
  paper_id :: pystr
  title :: pystr
  authors :: "pystr list"
  abstract :: pystr
  date_published :: datetime
  date_updated :: datetime
  embedding :: "real list option"

record author =
  author_name :: "pystr option"

record entry =
  entry_id :: "pystr option"
  entry_title :: "pystr option"
  entry_authors :: "author list option"
  entry_summary :: "pystr option"
  entry_published_parsed :: "int list option"
  entry_updated_parsed :: "int list option"

record feed =
  entries :: "entry list"

definition getitem :: "'a option \<Rightarrow> error + 'a" where
  "getitem field = (case field of None \<Rightarrow> Inl KeyError | Some v \<Rightarrow> Inr v)"

section \<open>\<^verbatim>\<open>html_escaping\<close> and \<^verbatim>\<open>search_url\<close>\<close>

definition replacements :: "(pystr \<times> pystr) list" where
  "replacements =
     [(lit ''\"'', lit ''%22''), (lit '' '', lit ''+''),
      (lit ''('', lit ''%28''), (lit '')'', lit ''%29'')]"

definition html_escaping :: "pystr \<Rightarrow> pystr" where
  "html_escaping string =
     fold (\<lambda>(source, destination) string. str_replace source destination string)
       replacements string"

text \<open>
  The substitution table as the specification words it, character by character: the
  double quote, the space and the two parentheses are replaced, every other character
  stays.
\<close>

definition spec_escape_char :: "nat \<Rightarrow> pystr" where
  "spec_escape_char c =
     (if c = 34 then lit ''%22''
      else if c = 32 then lit ''+''
      else if c = 40 then lit ''%28''
      else if c = 41 then lit ''%29''
      else [c])"

definition search_url :: "pystr \<Rightarrow> int \<Rightarrow> int \<Rightarrow> pystr" where
  "search_url query_string page max_results =
     (let kwargs =
            [(lit ''search_query'', html_escaping query_string),
             (lit ''sortBy'', lit ''submittedDate''),
             (lit ''sortOrder'', lit ''descending''),
             (lit ''start'', str_of_int (page * max_results)),
             (lit ''max_results'', str_of_int max_results)];
          kwarg_string = join (lit ''&'') (map (\<lambda>(key, value). key @ lit ''='' @ value) kwargs)
      in lit ''http://export.arxiv.org/api/query?'' @ kwarg_string)"

section \<open>\<^verbatim>\<open>paper_from_arxiv_entry\<close>\<close>

fun author_names :: "author list \<Rightarrow> error + pystr list" where
  "author_names [] = Inr []"
| "author_names (a # rest) =
     bind (getitem (author_name a)) (\<lambda>name.
     bind (author_names rest) (\<lambda>names. Inr (name # names)))"

text \<open>The keyword arguments are evaluated in the order in which the source writes them.\<close>

definition paper_from_arxiv_entry :: "entry \<Rightarrow> error + paper" where
  "paper_from_arxiv_entry entry =
     bind (getitem (entry_id entry)) (\<lambda>i.
     bind (getitem (entry_title entry)) (\<lambda>t.
     bind (getitem (entry_authors entry)) (\<lambda>as.
     bind (author_names as) (\<lambda>names.
     bind (getitem (entry_summary entry)) (\<lambda>s.
     bind (getitem (entry_published_parsed entry)) (\<lambda>pub.
     bind (datetime (take 6 pub)) (\<lambda>published.
     bind (getitem (entry_updated_parsed entry)) (\<lambda>upd.
     bind (datetime (take 6 upd)) (\<lambda>updated.
       Inr \<lparr>paper_id = i,
            title = join (lit '' '') (split (str_replace (lit ''\<newline>'') (lit '' '') t)),
            authors = names,
            abstract = str_replace (lit ''\<newline>'') (lit '' '') s,
            date_published = published,
            date_updated = updated,
            embedding = None\<rparr>)))))))))"

text \<open>
  A well-formed entry has every field that the code reads, a name for every author, and
  parsed time tuples of at least six fields that denote a date and a time.
\<close>

definition valid_time_tuple :: "int list \<Rightarrow> bool" where
  "valid_time_tuple t \<longleftrightarrow>
     6 \<le> length t \<and> valid_fields (t ! 0) (t ! 1) (t ! 2) (t ! 3) (t ! 4) (t ! 5)"

definition well_formed :: "entry \<Rightarrow> bool" where
  "well_formed e \<longleftrightarrow>
     entry_id e \<noteq> None \<and> entry_title e \<noteq> None \<and>
     (case entry_authors e of None \<Rightarrow> False
      | Some as \<Rightarrow> list_all (\<lambda>a. author_name a \<noteq> None) as) \<and>
     entry_summary e \<noteq> None \<and>
     (case entry_published_parsed e of None \<Rightarrow> False | Some t \<Rightarrow> valid_time_tuple t) \<and>
     (case entry_updated_parsed e of None \<Rightarrow> False | Some t \<Rightarrow> valid_time_tuple t)"

section \<open>The network and \<^verbatim>\<open>get_feed\<close>\<close>

text \<open>
  The effects of the program are requests to the network and sleeps; the state that is
  passed along is the list of the effects so far, in order. The network is a parameter:
  \<open>net n url\<close> is what the \<open>n\<close>-th request of the run (counted from 0) obtains when it
  asks for \<open>url\<close>, \<open>None\<close> when \<^verbatim>\<open>parse(urlopen(url).read().decode("utf-8"))\<close> raises.
  \<^verbatim>\<open>time.sleep\<close> raises \<^verbatim>\<open>ValueError\<close> for a negative length. The backoff factor is a
  Python float; it is modelled by a real number, so the rounding and the overflow of
  floating-point arithmetic are not part of the model.
\<close>

datatype event = Request pystr | Sleep real

type_synonym net = "nat \<Rightarrow> pystr \<Rightarrow> feed option"

definition requests :: "event list \<Rightarrow> pystr list" where
  "requests w = concat (map (\<lambda>ev. case ev of Request u \<Rightarrow> [u] | Sleep d \<Rightarrow> []) w)"

definition sleeps :: "event list \<Rightarrow> real list" where
  "sleeps w = concat (map (\<lambda>ev. case ev of Request u \<Rightarrow> [] | Sleep d \<Rightarrow> [d]) w)"

definition urlopen_parse :: "net \<Rightarrow> pystr \<Rightarrow> event list \<Rightarrow> feed option \<times> event list" where
  "urlopen_parse net url w = (net (length (requests w)) url, w @ [Request url])"

definition sleep :: "real \<Rightarrow> event list \<Rightarrow> (error + unit) \<times> event list" where
  "sleep secs w = (if secs < 0 then (Inl ValueError, w) else (Inr (), w @ [Sleep secs]))"

text \<open>The loop \<^verbatim>\<open>for current_try in range(max_tries)\<close>, over the tries that remain.\<close>

fun get_feed_tries ::
  "net \<Rightarrow> pystr \<Rightarrow> real \<Rightarrow> nat list \<Rightarrow> event list \<Rightarrow> (error + feed) \<times> event list" where
  "get_feed_tries net url backoff_scaling [] w = (Inl ValueError, w)"
| "get_feed_tries net url backoff_scaling (current_try # rest) w =
     (case urlopen_parse net url w of
        (Some data, w1) \<Rightarrow> (Inr data, w1)
      | (None, w1) \<Rightarrow>
          (case sleep (3 * backoff_scaling ^ current_try) w1 of
             (Inl e, w2) \<Rightarrow> (Inl e, w2)
           | (Inr u, w2) \<Rightarrow> get_feed_tries net url backoff_scaling rest w2))"

definition get_feed ::
  "net \<Rightarrow> pystr \<Rightarrow> real \<Rightarrow> int \<Rightarrow> event list \<Rightarrow> (error + feed) \<times> event list" where
  "get_feed net url backoff_scaling max_tries w =
     get_feed_tries net url backoff_scaling [0..<nat max_tries] w"

text \<open>
  The effects of \<open>get_feed\<close> while the tries \<open>tries\<close> fail: a request and a sleep for each.
  \<open>net_after k data\<close> is a network whose first \<open>k\<close> requests fail and whose later ones
  obtain \<open>data\<close>.
\<close>

definition retry_events :: "pystr \<Rightarrow> real \<Rightarrow> nat list \<Rightarrow> event list" where
  "retry_events url backoff_scaling tries =
     concat (map (\<lambda>i. [Request url, Sleep (3 * backoff_scaling ^ i)]) tries)"

definition net_after :: "nat \<Rightarrow> feed \<Rightarrow> net" where
  "net_after k data = (\<lambda>n url. if n < k then None else Some data)"

text \<open>
  \<open>net_of_pages ps\<close> is a network on which every request succeeds: the \<open>n\<close>-th request
  obtains the page \<open>ps ! n\<close>, and an empty page once the pages are used up.
\<close>

definition net_of_pages :: "entry list list \<Rightarrow> net" where
  "net_of_pages ps = (\<lambda>n url. Some \<lparr>entries = (if n < length ps then ps ! n else [])\<rparr>)"

section \<open>\<^verbatim>\<open>query\<close>\<close>

text \<open>
  \<^verbatim>\<open>query\<close> is a generator. A run of it, pulled until it ends, is modelled by the list of
  the papers it yields, in order, how it ends, and the effects it has had. The body of
  a generator starts to run at the first pull, so an exception raised before the first
  \<^verbatim>\<open>yield\<close> reaches the consumer with no paper yielded.

  \<open>for_entries\<close> is the loop over the entries of one page: it gives the papers yielded, how
  the generator ended if it ended inside the loop, and the count. \<open>query_while\<close> is the
  loop \<^verbatim>\<open>while True\<close>; it need not end, so it takes the number of pages it may still
  fetch, and a run that is cut there is \<open>Unfinished\<close>.
\<close>

datatype outcome = Returned | Raised error | Unfinished

fun for_entries ::
  "datetime option \<Rightarrow> int option \<Rightarrow> entry list \<Rightarrow> int \<Rightarrow> paper list \<times> outcome option \<times> int"
where
  "for_entries until max_results [] count = ([], None, count)"
| "for_entries until max_results (entry # rest) count =
     (case paper_from_arxiv_entry entry of
        Inl e \<Rightarrow> ([], Some (Raised e), count)
      | Inr paper \<Rightarrow>
          (case paper_from_arxiv_entry entry of
             Inl e \<Rightarrow> ([], Some (Raised e), count)
           | Inr yielded \<Rightarrow>
               (if (case max_results of None \<Rightarrow> False | Some m \<Rightarrow> count + 1 \<ge> m)
                then ([yielded], Some Returned, count + 1)
                else if (case until of None \<Rightarrow> False | Some u \<Rightarrow> date_published paper < u)
                then ([yielded], Some Returned, count + 1)
                else (case for_entries until max_results rest (count + 1) of
                        (ys, out, count') \<Rightarrow> (yielded # ys, out, count')))))"

fun query_while ::
  "nat \<Rightarrow> net \<Rightarrow> pystr \<Rightarrow> datetime option \<Rightarrow> int option \<Rightarrow> int \<Rightarrow> int \<Rightarrow> event list \<Rightarrow>
     paper list \<times> outcome \<times> event list"
where
  "query_while 0 net query_string until max_results page count w = ([], Unfinished, w)"
| "query_while (Suc fuel) net query_string until max_results page count w =
     (case py_min max_results 1000 of
        Inl e \<Rightarrow> ([], Raised e, w)
      | Inr cap \<Rightarrow>
          (case get_feed net (search_url query_string page cap) (3 / 2) 10 w of
             (Inl e, w1) \<Rightarrow> ([], Raised e, w1)
           | (Inr data, w1) \<Rightarrow>
               (case for_entries until max_results (entries data) count of
                  (ys, Some out, count') \<Rightarrow> (ys, out, w1)
                | (ys, None, count') \<Rightarrow>
                    (case query_while fuel net query_string until max_results
                            (page + 1) count' w1 of
                       (zs, out, w2) \<Rightarrow> (ys @ zs, out, w2)))))"

definition query ::
  "nat \<Rightarrow> net \<Rightarrow> pystr \<Rightarrow> datetime option \<Rightarrow> int option \<Rightarrow> event list \<Rightarrow>
     paper list \<times> outcome \<times> event list"
where
  "query fuel net query_string until max_results w =
     (if until = None \<and> max_results = None then ([], Raised ValueError, w)
      else query_while fuel net query_string until max_results 0 0 w)"

section \<open>Concrete inputs\<close>

definition entry_at :: "pystr \<Rightarrow> int list \<Rightarrow> entry" where
  "entry_at i t =
     \<lparr>entry_id = Some i, entry_title = Some (lit ''A\<newline>  B   C''),
      entry_authors = Some [\<lparr>author_name = Some (lit ''Ada'')\<rparr>, \<lparr>author_name = Some (lit ''Bob'')\<rparr>],
      entry_summary = Some (lit ''line1\<newline>line2''),
      entry_published_parsed = Some t, entry_updated_parsed = Some t\<rparr>"

definition paper_at :: "pystr \<Rightarrow> datetime \<Rightarrow> paper" where
  "paper_at i d =
     \<lparr>paper_id = i, title = lit ''A B C'', authors = [lit ''Ada'', lit ''Bob''],
      abstract = lit ''line1 line2'', date_published = d, date_updated = d,
      embedding = None\<rparr>"

section \<open>Strings: replacement, splitting and joining\<close>

lemma bind_simps [simp]:
  "bind (Inl e) f = Inl e" "bind (Inr v) f = f v"
  by (simp_all add: bind_def)

lemma getitem_simps [simp]:
  "getitem None = Inl KeyError" "getitem (Some v) = Inr v"
  by (simp_all add: getitem_def)

lemma str_replace_single:
  "str_replace [c] new s = concat (map (\<lambda>x. if x = c then new else [x]) s)"
proof (induction s)
  case Nil
  show ?case by (simp add: str_replace.simps [of "[c]" new "[]"])
next
  case (Cons x xs)
  show ?case
    using Cons.IH by (auto simp: str_replace.simps [of "[c]" new "x # xs"])
qed

lemma str_replace_char:
  "str_replace [a] [b] s = map (\<lambda>x. if x = a then b else x) s"
  by (induction s) (simp_all add: str_replace_single)

lemma concat_map_concat_map:
  "concat (map f (concat (map g s))) = concat (map (\<lambda>x. concat (map f (g x))) s)"
  by (induction s) simp_all

lemma html_escaping_unfold:
  "html_escaping s =
     str_replace (lit '')'') (lit ''%29'')
       (str_replace (lit ''('') (lit ''%28'')
         (str_replace (lit '' '') (lit ''+'')
           (str_replace (lit ''\"'') (lit ''%22'') s)))"
  by (simp add: html_escaping_def replacements_def)

lemma html_escaping_concat_map:
  "html_escaping s = concat (map spec_escape_char s)"
proof -
  define r :: "nat \<Rightarrow> pystr \<Rightarrow> nat \<Rightarrow> pystr"
    where "r = (\<lambda>c new x. if x = c then new else [x])"
  have single: "str_replace [c] new t = concat (map (r c new) t)" for c new t
    by (simp add: str_replace_single r_def)
  have pointwise:
    "concat (map (\<lambda>x. concat (map (\<lambda>y. concat (map (r 41 [37, 50, 57]) (r 40 [37, 50, 56] y)))
       (r 32 [43] x))) (r 34 [37, 50, 50] c)) = spec_escape_char c" for c
    by (simp add: r_def spec_escape_char_def lit_def)
  show ?thesis
    unfolding html_escaping_unfold
    by (simp add: lit_def single concat_map_concat_map pointwise)
qed

lemma spec_escape_char_fixed:
  "concat (map spec_escape_char (spec_escape_char c)) = spec_escape_char c"
  by (simp add: spec_escape_char_def lit_def)













section \<open>The entry normalizer\<close>

lemma author_names_ok:
  "list_all (\<lambda>a. author_name a \<noteq> None) as \<Longrightarrow>
     \<exists>names. author_names as = Inr names \<and> map author_name as = map Some names"
  by (induction as) auto

lemma datetime_valid:
  "valid_time_tuple t \<Longrightarrow>
     datetime (take 6 t) = Inr (t ! 0, t ! 1, t ! 2, t ! 3, t ! 4, t ! 5, 0)"
  by (simp add: valid_time_tuple_def datetime_def arg_or_def)

lemma well_formed_normalizes:
  assumes "well_formed e"
  shows "\<exists>p. paper_from_arxiv_entry e = Inr p"
proof -
  from assms obtain i t as s pub upd where f:
    "entry_id e = Some i" "entry_title e = Some t" "entry_authors e = Some as"
    "entry_summary e = Some s" "entry_published_parsed e = Some pub"
    "entry_updated_parsed e = Some upd"
    by (auto simp: well_formed_def split: option.splits)
  from assms f have "list_all (\<lambda>a. author_name a \<noteq> None) as" "valid_time_tuple pub" "valid_time_tuple upd"
    by (simp_all add: well_formed_def)
  then show ?thesis
    using author_names_ok [of as] datetime_valid [of pub] datetime_valid [of upd] f
    by (auto simp: paper_from_arxiv_entry_def)
qed

lemma entry_at_paper:
  "valid_time_tuple t \<Longrightarrow> paper_from_arxiv_entry (entry_at i t) =
     Inr (paper_at i (t ! 0, t ! 1, t ! 2, t ! 3, t ! 4, t ! 5, 0))"
  by (simp add: paper_from_arxiv_entry_def entry_at_def paper_at_def datetime_valid)
     (simp add: lit_def str_replace_char is_space_def)



section \<open>Escaping\<close>

text \<open>
  C8: for every string, \<open>html_escaping\<close> is the four literal replacements applied one
  after the other, in the order double quote to \<^verbatim>\<open>%22\<close>, space to \<^verbatim>\<open>+\<close>, opening
  parenthesis to \<^verbatim>\<open>%28\<close>, closing parenthesis to \<^verbatim>\<open>%29\<close>; the result is the string with
  each of these four characters replaced according to the table and every other
  character unchanged; and \<^verbatim>\<open>A (test) "x"\<close> becomes \<^verbatim>\<open>A+%28test%29+%22x%22\<close>.
\<close>

theorem html_escaping_table:
  "html_escaping s =
     str_replace (lit '')'') (lit ''%29'')
       (str_replace (lit ''('') (lit ''%28'')
         (str_replace (lit '' '') (lit ''+'')
           (str_replace (lit ''\"'') (lit ''%22'') s)))
   \<and> html_escaping s = concat (map spec_escape_char s)
   \<and> html_escaping (lit ''A (test) \"x\"'') = lit ''A+%28test%29+%22x%22''"
proof -
  have "html_escaping (lit ''A (test) \"x\"'') = lit ''A+%28test%29+%22x%22''"
    by (simp add: html_escaping_concat_map spec_escape_char_def lit_def)
  then show ?thesis
    using html_escaping_unfold [of s] html_escaping_concat_map [of s] by simp
qed

text \<open>
  C9: \<open>html_escaping\<close> is idempotent, and no character of a replacement output is one of
  the four replaced characters.
\<close>

theorem html_escaping_idempotent:
  "html_escaping (html_escaping s) = html_escaping s
   \<and> set (concat (map snd replacements)) \<inter> set (concat (map fst replacements)) = {}"
proof
  show "html_escaping (html_escaping s) = html_escaping s"
    by (simp add: html_escaping_concat_map concat_map_concat_map spec_escape_char_fixed)
  show "set (concat (map snd replacements)) \<inter> set (concat (map fst replacements)) = {}"
    by (simp add: replacements_def lit_def)
qed

section \<open>The feed fetcher\<close>

lemma requests_append [simp]: "requests (w @ v) = requests w @ requests v"
  by (simp add: requests_def)

lemma sleeps_append [simp]: "sleeps (w @ v) = sleeps w @ sleeps v"
  by (simp add: sleeps_def)

lemma requests_simps [simp]:
  "requests [] = []" "requests (Request u # w) = u # requests w"
  "requests (Sleep d # w) = requests w"
  by (simp_all add: requests_def)

lemma sleeps_simps [simp]:
  "sleeps [] = []" "sleeps (Request u # w) = sleeps w" "sleeps (Sleep d # w) = d # sleeps w"
  by (simp_all add: sleeps_def)

lemma requests_retry_events [simp]:
  "requests (retry_events url sc tries) = replicate (length tries) url"
  by (induction tries) (simp_all add: retry_events_def)

lemma sleeps_retry_events [simp]:
  "sleeps (retry_events url sc tries) = map (\<lambda>i. 3 * sc ^ i) tries"
  by (induction tries) (simp_all add: retry_events_def)










section \<open>The query iterator\<close>

text \<open>
  C1: with \<open>until\<close> set and \<open>max_results\<close> absent, the per-page cap
  \<^verbatim>\<open>min(max_results, 1000)\<close> is \<^verbatim>\<open>min(None, 1000)\<close>: the first pull raises \<^verbatim>\<open>TypeError\<close>,
  no paper is yielded and no page is requested. This is the call that
  \<^verbatim>\<open>FileBackend.update\<close> makes.
\<close>

theorem query_cap_without_max_results:
  "query (Suc fuel) net query_string (Some until) None w = ([], Raised TypeError, w)"
  by (simp add: query_def py_min_def)


lemma get_feed_first_try:
  assumes "net (length (requests w)) url = Some data" and "0 < max_tries"
  shows "get_feed net url sc max_tries w = (Inr data, w @ [Request url])"
proof -
  from assms(2) have "[0..<nat max_tries] = 0 # [1..<nat max_tries]"
    by (simp add: upt_conv_Cons)
  with assms(1) show ?thesis
    by (simp add: get_feed_def urlopen_parse_def)
qed

lemma for_entries_append:
  "for_entries u m (xs @ ys) c =
     (case for_entries u m xs c of
        (a, Some r, c1) \<Rightarrow> (a, Some r, c1)
      | (a, None, c1) \<Rightarrow> (case for_entries u m ys c1 of (b, r, c2) \<Rightarrow> (a @ b, r, c2)))"
proof (induction xs arbitrary: c)
  case Nil
  show ?case by (simp split: prod.splits)
next
  case (Cons x xs)
  show ?case
    by (simp add: Cons.IH split: sum.splits prod.splits option.splits)
qed

lemma for_entries_no_stop:
  assumes "map paper_from_arxiv_entry es = map Inr ps"
    and "case m of None \<Rightarrow> True | Some N \<Rightarrow> c + int (length es) < N"
    and "case u of None \<Rightarrow> True | Some d \<Rightarrow> \<forall>p\<in>set ps. \<not> date_published p < d"
  shows "for_entries u m es c = (ps, None, c + int (length es))"
  using assms
proof (induction es arbitrary: ps c)
  case Nil
  then show ?case by simp
next
  case (Cons e es)
  then obtain p ps' where ps: "ps = p # ps'" "paper_from_arxiv_entry e = Inr p"
    "map paper_from_arxiv_entry es = map Inr ps'"
    by (cases ps) auto
  have "for_entries u m es (c + 1) = (ps', None, c + 1 + int (length es))"
  proof (rule Cons.IH [OF ps(3)])
    show "case m of None \<Rightarrow> True | Some N \<Rightarrow> c + 1 + int (length es) < N"
      using Cons.prems(2) by (simp split: option.splits)
    show "case u of None \<Rightarrow> True | Some d \<Rightarrow> \<forall>p\<in>set ps'. \<not> date_published p < d"
      using Cons.prems(3) ps(1) by (cases u) auto
  qed
  moreover have "\<not> (case m of None \<Rightarrow> False | Some N \<Rightarrow> N \<le> c + 1)"
    using Cons.prems(2) by (simp split: option.splits)
  moreover have "\<not> (case u of None \<Rightarrow> False | Some d \<Rightarrow> date_published p < d)"
    using Cons.prems(3) ps(1) by (cases u) auto
  ultimately show ?case
    using ps by simp
qed

lemma for_entries_stop:
  assumes "paper_from_arxiv_entry e = Inr p"
    and "(case m of None \<Rightarrow> False | Some N \<Rightarrow> N \<le> c + 1)
       \<or> (case u of None \<Rightarrow> False | Some d \<Rightarrow> date_published p < d)"
  shows "for_entries u m (e # rest) c = ([p], Some Returned, c + 1)"
  using assms by auto

lemma for_entries_stop_after:
  assumes "map paper_from_arxiv_entry pre = map Inr ps" and "paper_from_arxiv_entry e = Inr p"
    and "case m of None \<Rightarrow> True | Some N \<Rightarrow> c + int (length pre) < N"
    and "case u of None \<Rightarrow> True | Some d \<Rightarrow> \<forall>p\<in>set ps. \<not> date_published p < d"
    and "(case m of None \<Rightarrow> False | Some N \<Rightarrow> N \<le> c + int (length pre) + 1)
       \<or> (case u of None \<Rightarrow> False | Some d \<Rightarrow> date_published p < d)"
  shows "for_entries u m (pre @ e # post) c = (ps @ [p], Some Returned, c + int (length pre) + 1)"
  using for_entries_no_stop [OF assms(1,3,4)] for_entries_stop [OF assms(2,5), of post]
  by (simp add: for_entries_append)

lemma concat_pages_Suc:
  "concat (map pages [0..<Suc fuel]) = pages 0 @ concat (map (\<lambda>p. pages (Suc p)) [0..<fuel])"
  by (simp only: map_upt_Suc concat.simps)

lemma query_while_reliable:
  assumes "\<And>p. p < fuel \<Longrightarrow>
     net (length (requests w) + p) (search_url qs (page + int p) (min N 1000)) =
       Some \<lparr>entries = pages p\<rparr>"
  shows "fst (query_while fuel net qs u (Some N) page c w) =
       fst (for_entries u (Some N) (concat (map pages [0..<fuel])) c)
     \<and> fst (snd (query_while fuel net qs u (Some N) page c w)) =
       (case fst (snd (for_entries u (Some N) (concat (map pages [0..<fuel])) c)) of
          None \<Rightarrow> Unfinished | Some r \<Rightarrow> r)"
  using assms
proof (induction fuel arbitrary: w page c pages)
  case 0
  show ?case by simp
next
  case (Suc fuel)
  let ?url = "search_url qs page (min N 1000)"
  let ?w1 = "w @ [Request ?url]"
  from Suc.prems [of 0] have "net (length (requests w)) ?url = Some \<lparr>entries = pages 0\<rparr>"
    by simp
  then have fetch: "get_feed net ?url (3 / 2) 10 w = (Inr \<lparr>entries = pages 0\<rparr>, ?w1)"
    by (rule get_feed_first_try) simp
  obtain ys out c' where fe: "for_entries u (Some N) (pages 0) c = (ys, out, c')"
    by (cases "for_entries u (Some N) (pages 0) c") auto
  show ?case
  proof (cases out)
    case (Some r)
    with fe fetch show ?thesis
      by (simp add: py_min_def concat_pages_Suc for_entries_append del: upt_Suc)
  next
    case None
    have "fst (query_while fuel net qs u (Some N) (page + 1) c' ?w1) =
       fst (for_entries u (Some N) (concat (map (\<lambda>p. pages (Suc p)) [0..<fuel])) c')
     \<and> fst (snd (query_while fuel net qs u (Some N) (page + 1) c' ?w1)) =
       (case fst (snd (for_entries u (Some N) (concat (map (\<lambda>p. pages (Suc p)) [0..<fuel])) c')) of
          None \<Rightarrow> Unfinished | Some r \<Rightarrow> r)"
    proof (rule Suc.IH)
      fix p assume "p < fuel"
      then show "net (length (requests ?w1) + p) (search_url qs (page + 1 + int p) (min N 1000)) =
          Some \<lparr>entries = pages (Suc p)\<rparr>"
        using Suc.prems [of "Suc p"] by (simp add: algebra_simps)
    qed
    moreover obtain zs out2 w2 where
      "query_while fuel net qs u (Some N) (page + 1) c' ?w1 = (zs, out2, w2)"
      by (cases "query_while fuel net qs u (Some N) (page + 1) c' ?w1") auto
    moreover obtain zs' out' c2 where
      "for_entries u (Some N) (concat (map (\<lambda>p. pages (Suc p)) [0..<fuel])) c' = (zs', out', c2)"
      by (cases "for_entries u (Some N) (concat (map (\<lambda>p. pages (Suc p)) [0..<fuel])) c'") auto
    ultimately show ?thesis
      using None fe fetch
      by (simp add: py_min_def concat_pages_Suc for_entries_append del: upt_Suc)
  qed
qed

lemma for_entries_older:
  "for_entries (Some d) m es c = (ys, out, c') \<Longrightarrow>
     length (filter (\<lambda>p. date_published p < d) ys) \<le> 1
     \<and> (out = None \<longrightarrow> filter (\<lambda>p. date_published p < d) ys = [])"
proof (induction es arbitrary: c ys out c')
  case Nil
  then show ?case by simp
next
  case (Cons e es)
  show ?case
  proof (cases "paper_from_arxiv_entry e")
    case (Inl err)
    with Cons.prems show ?thesis by auto
  next
    case (Inr p)
    show ?thesis
    proof (cases "(case m of None \<Rightarrow> False | Some N \<Rightarrow> N \<le> c + 1) \<or> date_published p < d")
      case True
      with Cons.prems Inr show ?thesis by (auto split: if_splits)
    next
      case False
      obtain zs out2 c2 where r: "for_entries (Some d) m es (c + 1) = (zs, out2, c2)"
        by (cases "for_entries (Some d) m es (c + 1)") auto
      with Cons.prems Inr False have "ys = p # zs" "out = out2"
        by auto
      with Cons.IH [OF r] False show ?thesis by simp
    qed
  qed
qed

lemma query_while_older:
  "length (filter (\<lambda>p. date_published p < d)
     (fst (query_while fuel net qs (Some d) m page c w))) \<le> 1"
proof (induction fuel arbitrary: page c w)
  case 0
  show ?case by simp
next
  case (Suc fuel)
  show ?case
  proof (cases "py_min m 1000")
    case (Inl err)
    then show ?thesis by simp
  next
    case (Inr cap)
    obtain r w1 where g: "get_feed net (search_url qs page cap) (3 / 2) 10 w = (r, w1)"
      by (cases "get_feed net (search_url qs page cap) (3 / 2) 10 w") auto
    show ?thesis
    proof (cases r)
      case (Inl err)
      with Inr g show ?thesis by simp
    next
      case data: (Inr data)
      obtain ys out c' where fe: "for_entries (Some d) m (entries data) c = (ys, out, c')"
        by (cases "for_entries (Some d) m (entries data) c") auto
      note old = for_entries_older [OF fe]
      show ?thesis
      proof (cases out)
        case (Some x)
        with Inr g data fe old show ?thesis by simp
      next
        case None
        obtain zs out2 w2 where
          "query_while fuel net qs (Some d) m (page + 1) c' w1 = (zs, out2, w2)"
          by (cases "query_while fuel net qs (Some d) m (page + 1) c' w1") auto
        with None Inr g data fe old Suc.IH [of "page + 1" c' w1] show ?thesis
          by simp
      qed
    qed
  qed
qed

lemma get_feed_net_after_0 [simp]:
  "get_feed (net_after 0 data) url sc 10 w = (Inr data, w @ [Request url])"
  by (rule get_feed_first_try) (simp_all add: net_after_def)

lemma get_feed_net_of_pages [simp]:
  "get_feed (net_of_pages ps) url sc 10 w =
     (Inr \<lparr>entries = (if length (requests w) < length ps then ps ! length (requests w) else [])\<rparr>,
      w @ [Request url])"
  by (rule get_feed_first_try) (simp_all add: net_of_pages_def)

lemma valid_time_tuple_examples [simp]:
  "valid_time_tuple [2024, 3, 1, 0, 0, 0]" "valid_time_tuple [2024, 2, 1, 0, 0, 0]"
  "valid_time_tuple [2024, 1, 1, 0, 0, 0]"
  by (simp_all add: valid_time_tuple_def valid_fields_def days_in_month_def)

lemma well_formed_entry_at:
  "valid_time_tuple t \<Longrightarrow> well_formed (entry_at i t)"
  by (simp add: well_formed_def entry_at_def)

lemma date_published_paper_at [simp]: "date_published (paper_at i d) = d"
  by (simp add: paper_at_def)

lemma query_stops_at:
  assumes feed: "\<And>p. p < fuel \<Longrightarrow>
       net (length (requests w) + p) (search_url qs (int p) (min N 1000)) =
         Some \<lparr>entries = pages p\<rparr>"
    and stream: "concat (map pages [0..<fuel]) = pre @ e # post"
    and pre: "map paper_from_arxiv_entry pre = map Inr ps"
    and e: "paper_from_arxiv_entry e = Inr p"
    and count: "int (length pre) < N"
    and dates: "case u of None \<Rightarrow> True | Some d \<Rightarrow> \<forall>p\<in>set ps. \<not> date_published p < d"
    and stop: "N \<le> int (length pre) + 1
       \<or> (case u of None \<Rightarrow> False | Some d \<Rightarrow> date_published p < d)"
  shows "\<exists>w'. query fuel net qs u (Some N) w = (ps @ [p], Returned, w')"
proof -
  have "for_entries u (Some N) (pre @ e # post) 0 =
      (ps @ [p], Some Returned, 0 + int (length pre) + 1)"
    using pre e count dates stop by (intro for_entries_stop_after) simp_all
  moreover have "fst (query_while fuel net qs u (Some N) 0 0 w) =
       fst (for_entries u (Some N) (concat (map pages [0..<fuel])) 0)
     \<and> fst (snd (query_while fuel net qs u (Some N) 0 0 w)) =
       (case fst (snd (for_entries u (Some N) (concat (map pages [0..<fuel])) 0)) of
          None \<Rightarrow> Unfinished | Some r \<Rightarrow> r)"
    using feed by (intro query_while_reliable) simp
  ultimately have "fst (query fuel net qs u (Some N) w) = ps @ [p]"
    "fst (snd (query fuel net qs u (Some N) w)) = Returned"
    by (simp_all add: query_def stream)
  then show ?thesis
    by (cases "query fuel net qs u (Some N) w") auto
qed

lemma length_concat_pages:
  "(\<And>p. pages p \<noteq> []) \<Longrightarrow> fuel \<le> length (concat (map pages [0..<fuel]))"
proof (induction fuel)
  case 0
  show ?case by simp
next
  case (Suc fuel)
  have "1 \<le> length (pages fuel)"
    using Suc.prems [of fuel] by (cases "pages fuel") simp_all
  with Suc show ?case by simp
qed

lemma well_formed_papers:
  "list_all well_formed es \<Longrightarrow> \<exists>ps. map paper_from_arxiv_entry es = map Inr ps"
proof (induction es)
  case Nil
  show ?case by simp
next
  case (Cons e es)
  then obtain p ps where "paper_from_arxiv_entry e = Inr p" "map paper_from_arxiv_entry es = map Inr ps"
    using well_formed_normalizes [of e] by auto
  then have "map paper_from_arxiv_entry (e # es) = map Inr (p # ps)" by simp
  then show ?case by blast
qed

lemma query_while_all_empty:
  assumes "\<forall>n url. net n url = Some \<lparr>entries = []\<rparr>"
  shows "query_while fuel net qs u (Some N) page c w =
     ([], Unfinished, w @ map (\<lambda>p. Request (search_url qs (page + int p) (min N 1000))) [0..<fuel])"
proof (induction fuel arbitrary: page w)
  case 0
  show ?case by simp
next
  case (Suc fuel)
  have "get_feed net (search_url qs page (min N 1000)) (3 / 2) 10 w =
      (Inr \<lparr>entries = []\<rparr>, w @ [Request (search_url qs page (min N 1000))])"
    using assms by (intro get_feed_first_try) simp_all
  then show ?case
    by (simp add: py_min_def Suc.IH map_upt_Suc algebra_simps del: upt_Suc)
qed

text \<open>
  C2, as amended: when a fetched page has no entries, no paper is produced from it and
  no error is raised, but the iteration does not end: the loop goes on with the next
  page index, the same count, and fetches that page. Over a feed all of whose pages are
  empty, the run is still unfinished after any number of pages, one request for each.
\<close>

theorem query_empty_page:
  "(py_min max_results 1000 = Inr cap
      \<and> get_feed net (search_url qs page cap) (3 / 2) 10 w = (Inr data, w1)
      \<and> entries data = []
    \<longrightarrow> query_while (Suc fuel) net qs until max_results page count w =
        query_while fuel net qs until max_results (page + 1) count w1)
   \<and> ((\<forall>n url. net n url = Some \<lparr>entries = []\<rparr>)
    \<longrightarrow> query fuel net qs until (Some N) w =
        ([], Unfinished,
         w @ map (\<lambda>p. Request (search_url qs (int p) (min N 1000))) [0..<fuel]))"
proof (intro conjI impI)
  assume "py_min max_results 1000 = Inr cap
      \<and> get_feed net (search_url qs page cap) (3 / 2) 10 w = (Inr data, w1)
      \<and> entries data = []"
  moreover obtain zs out w2 where
    "query_while fuel net qs until max_results (page + 1) count w1 = (zs, out, w2)"
    by (cases "query_while fuel net qs until max_results (page + 1) count w1") auto
  ultimately show "query_while (Suc fuel) net qs until max_results page count w =
      query_while fuel net qs until max_results (page + 1) count w1"
    by simp
next
  assume "\<forall>n url. net n url = Some \<lparr>entries = []\<rparr>"
  from query_while_all_empty [OF this, of fuel qs until N 0 0 w]
  show "query fuel net qs until (Some N) w =
      ([], Unfinished, w @ map (\<lambda>p. Request (search_url qs (int p) (min N 1000))) [0..<fuel])"
    by (simp add: query_def)
qed

text \<open>
  After the empty page 0 the run continues as the run from page 1; on a feed of empty
  pages a run of two pages makes two requests and has not ended.
\<close>

theorem query_empty_page_witness:
  "query_while (Suc (Suc 0)) (net_of_pages [[], [entry_at (lit ''a'') [2024, 3, 1, 0, 0, 0]]])
       (lit ''cat:cs.LG'') None (Some 1) 0 0 [] =
     query_while (Suc 0) (net_of_pages [[], [entry_at (lit ''a'') [2024, 3, 1, 0, 0, 0]]])
       (lit ''cat:cs.LG'') None (Some 1) 1 0 [Request (search_url (lit ''cat:cs.LG'') 0 1)]
   \<and> query (Suc (Suc 0)) (net_of_pages []) (lit ''cat:cs.LG'') (Some (2024, 1, 1, 0, 0, 0, 0))
       (Some 5) [] =
     ([], Unfinished,
      [Request (search_url (lit ''cat:cs.LG'') 0 5), Request (search_url (lit ''cat:cs.LG'') 1 5)])"
proof -
  let ?net = "net_of_pages [[], [entry_at (lit ''a'') [2024, 3, 1, 0, 0, 0]]]"
  let ?q = "lit ''cat:cs.LG''"
  have a: "py_min (Some 1) 1000 = Inr 1
      \<and> get_feed ?net (search_url ?q 0 1) (3 / 2) 10 [] =
          (Inr \<lparr>entries = []\<rparr>, [Request (search_url ?q 0 1)])
      \<and> entries \<lparr>entries = []\<rparr> = []"
    by (simp add: py_min_def)
  have b: "\<forall>n url. net_of_pages [] n url = Some \<lparr>entries = []\<rparr>"
    by (simp add: net_of_pages_def)
  have upt: "[0..<Suc (Suc 0)] = [0, Suc 0]"
    by (simp add: upt_conv_Cons)
  show ?thesis
    using query_empty_page [of "Some 1" 1 ?net ?q 0 "[]" "\<lparr>entries = []\<rparr>"
        "[Request (search_url ?q 0 1)]" "Suc 0" None 0 5] a
      query_empty_page [of "Some 5" 5 "net_of_pages []" ?q 0 "[]" "\<lparr>entries = []\<rparr>"
        "[]" "Suc (Suc 0)" "Some (2024, 1, 1, 0, 0, 0, 0)" 0 5] b
    by (simp add: upt del: upt_Suc query_while.simps)
qed

text \<open>
  Page 0 is empty and no stop condition has fired; the iterator requests page 1 and
  yields its record.
\<close>

theorem query_fetches_after_empty_page:
  "query (Suc (Suc 0)) (net_of_pages [[], [entry_at (lit ''a'') [2024, 3, 1, 0, 0, 0]]])
       (lit ''cat:cs.LG'') None (Some 1) [] =
     ([paper_at (lit ''a'') (2024, 3, 1, 0, 0, 0, 0)], Returned,
      [Request (search_url (lit ''cat:cs.LG'') 0 1), Request (search_url (lit ''cat:cs.LG'') 1 1)])"
  by (simp add: query_def py_min_def entry_at_paper)

text \<open>
  C10, as amended: for every query whose first fetched page is not empty and whose first
  entry normalizes without error, the paper of that entry is the first one yielded,
  whatever \<open>until\<close> and \<open>max_results\<close> are: the stop conditions are checked after the
  \<^verbatim>\<open>yield\<close>. In particular with \<open>max_results \<le> 1\<close>, so also with \<open>max_results = 0\<close>, the run
  yields exactly that paper and returns.
\<close>

theorem query_first_record:
  assumes "get_feed net (search_url qs 0 (min N 1000)) (3 / 2) 10 w = (Inr data, w1)"
    and "entries data = e # rest"
    and "paper_from_arxiv_entry e = Inr p"
  shows "(\<exists>ys out w'. query (Suc fuel) net qs until (Some N) w = (p # ys, out, w'))
     \<and> (N \<le> 1 \<longrightarrow> query (Suc fuel) net qs until (Some N) w = ([p], Returned, w1))"
proof -
  define cap where "cap = min N 1000"
  obtain ys out c' where fe: "for_entries until (Some N) rest 1 = (ys, out, c')"
    by (cases "for_entries until (Some N) rest 1") auto
  obtain zs out2 w2 where qw: "query_while fuel net qs until (Some N) 1 c' w1 = (zs, out2, w2)"
    by (cases "query_while fuel net qs until (Some N) 1 c' w1") auto
  have g: "get_feed net (search_url qs 0 cap) (3 / 2) 10 w = (Inr data, w1)"
    using assms(1) by (simp only: cap_def)
  have q: "query (Suc fuel) net qs until (Some N) w =
      (case for_entries until (Some N) (e # rest) 0 of
         (ys, Some out, count') \<Rightarrow> (ys, out, w1)
       | (ys, None, count') \<Rightarrow>
           (case query_while fuel net qs until (Some N) (0 + 1) count' w1 of
              (zs, out, w2) \<Rightarrow> (ys @ zs, out, w2)))"
    by (simp add: query_def py_min_def cap_def [symmetric] g assms(2))
  show ?thesis
  proof (cases "N \<le> 1 \<or> (case until of None \<Rightarrow> False | Some u \<Rightarrow> date_published p < u)")
    case True
    then show ?thesis
      unfolding q using assms(3) by auto
  next
    case False
    then show ?thesis
      unfolding q using assms(3) fe qw by (cases out) auto
  qed
qed

text \<open>With \<open>max_results = 0\<close> and a first page of two entries, one paper is yielded.\<close>

theorem query_first_record_witness:
  "query (Suc 0)
       (net_after 0 \<lparr>entries = [entry_at (lit ''a'') [2024, 3, 1, 0, 0, 0],
                                  entry_at (lit ''b'') [2024, 2, 1, 0, 0, 0]]\<rparr>)
       (lit ''cat:cs.LG'') None (Some 0) [] =
     ([paper_at (lit ''a'') (2024, 3, 1, 0, 0, 0, 0)], Returned,
      [Request (search_url (lit ''cat:cs.LG'') 0 0)])"
proof -
  let ?data = "\<lparr>entries = [entry_at (lit ''a'') [2024, 3, 1, 0, 0, 0],
                                  entry_at (lit ''b'') [2024, 2, 1, 0, 0, 0]]\<rparr>"
  let ?q = "lit ''cat:cs.LG''"
  have a: "get_feed (net_after 0 ?data) (search_url ?q 0 (min 0 1000)) (3 / 2) 10 [] =
      (Inr ?data, [Request (search_url ?q 0 0)])"
    by simp
  have b: "entries ?data = entry_at (lit ''a'') [2024, 3, 1, 0, 0, 0] #
      [entry_at (lit ''b'') [2024, 2, 1, 0, 0, 0]]"
    by simp
  have c: "paper_from_arxiv_entry (entry_at (lit ''a'') [2024, 3, 1, 0, 0, 0]) =
      Inr (paper_at (lit ''a'') (2024, 3, 1, 0, 0, 0, 0))"
    by (simp add: entry_at_paper)
  from query_first_record [OF a b c, of 0 None] show ?thesis
    by simp
qed

text \<open>
  The first page is not empty, but its first entry has no title: the normalizer raises
  \<^verbatim>\<open>KeyError\<close> before the first \<^verbatim>\<open>yield\<close>, and no record is produced.
\<close>

theorem query_malformed_first_entry:
  "query (Suc 0)
       (net_after 0 \<lparr>entries = [(entry_at (lit ''a'') [2024, 3, 1, 0, 0, 0])\<lparr>entry_title := None\<rparr>,
                                  entry_at (lit ''b'') [2024, 2, 1, 0, 0, 0]]\<rparr>)
       (lit ''cat:cs.LG'') None (Some 5) [] =
     ([], Raised KeyError, [Request (search_url (lit ''cat:cs.LG'') 0 5)])"
  by (simp add: query_def py_min_def paper_from_arxiv_entry_def entry_at_def)

text \<open>
  C5, as amended: for every query with \<open>max_results = N\<close> and \<open>N \<ge> 1\<close>, over an infinite
  well-formed feed (every page is fetched at the first try, is not empty and has only
  well-formed entries) in which none of the first \<open>N - 1\<close> records is older than \<open>until\<close>
  (in particular when \<open>until\<close> is absent), the iterator yields exactly the first \<open>N\<close> records
  of the feed and returns. The count is checked first: a record that brings the count
  to \<open>N\<close> ends the iteration whatever its date and whatever \<open>until\<close> is.
\<close>

theorem query_max_results:
  assumes "1 \<le> N" and "nat N \<le> fuel"
    and feed: "\<And>p. net (length (requests w) + p) (search_url qs (int p) (min N 1000)) =
       Some \<lparr>entries = pages p\<rparr>"
    and infinite: "\<And>p. pages p \<noteq> []"
    and wf: "\<And>p. list_all well_formed (pages p)"
    and dates: "case until of None \<Rightarrow> True
       | Some d \<Rightarrow> \<forall>e\<in>set (take (nat N - 1) (concat (map pages [0..<fuel]))).
           \<forall>p. paper_from_arxiv_entry e = Inr p \<longrightarrow> \<not> date_published p < d"
  shows "(\<exists>ys w'. query fuel net qs until (Some N) w = (ys, Returned, w')
       \<and> int (length ys) = N
       \<and> map Inr ys = map paper_from_arxiv_entry (take (nat N) (concat (map pages [0..<fuel]))))
     \<and> (\<forall>e rest c p u. paper_from_arxiv_entry e = Inr p \<longrightarrow> N \<le> c + 1 \<longrightarrow>
          for_entries u (Some N) (e # rest) c = ([p], Some Returned, c + 1))"
proof
  define stream where "stream = concat (map pages [0..<fuel])"
  define n where "n = nat N - 1"
  have len: "n < length stream"
    using length_concat_pages [of pages fuel] infinite assms(1,2) by (simp add: stream_def n_def)
  have "list_all well_formed stream"
    using wf by (simp add: stream_def list_all_iff)
  then obtain papers where papers: "map paper_from_arxiv_entry stream = map Inr papers"
    using well_formed_papers by blast
  then have lenp: "length papers = length stream"
    by (metis length_map)
  have split: "stream = take n stream @ stream ! n # drop (Suc n) stream"
    using len by (rule id_take_nth_drop)
  have pre: "map paper_from_arxiv_entry (take n stream) = map Inr (take n papers)"
    using papers by (simp add: take_map [symmetric])
  have e: "paper_from_arxiv_entry (stream ! n) = Inr (papers ! n)"
    using papers len lenp by (metis nth_map)
  have d: "case until of None \<Rightarrow> True
      | Some d \<Rightarrow> \<forall>p\<in>set (take n papers). \<not> date_published p < d"
  proof (cases until)
    case None
    then show ?thesis by simp
  next
    case (Some d)
    have "\<not> date_published p < d" if "p \<in> set (take n papers)" for p
    proof -
      from that have "Inr p \<in> set (map paper_from_arxiv_entry (take n stream))"
        unfolding pre by simp
      then obtain e where "e \<in> set (take n stream)" "paper_from_arxiv_entry e = Inr p"
        by auto
      with dates Some show ?thesis
        by (simp add: stream_def n_def)
    qed
    with Some show ?thesis by simp
  qed
  have "\<exists>w'. query fuel net qs until (Some N) w = (take n papers @ [papers ! n], Returned, w')"
  proof (rule query_stops_at [where pages = pages and pre = "take n stream"
        and e = "stream ! n" and post = "drop (Suc n) stream"])
    show "net (length (requests w) + p) (search_url qs (int p) (min N 1000)) =
        Some \<lparr>entries = pages p\<rparr>" for p
      by (rule feed)
    show "concat (map pages [0..<fuel]) = take n stream @ stream ! n # drop (Suc n) stream"
      using split by (simp add: stream_def)
    show "int (length (take n stream)) < N"
      using len assms(1) by (simp add: n_def)
    show "N \<le> int (length (take n stream)) + 1
        \<or> (case until of None \<Rightarrow> False | Some d \<Rightarrow> date_published (papers ! n) < d)"
      using len assms(1) by (simp add: n_def)
  qed (rule pre e d)+
  moreover have "take n papers @ [papers ! n] = take (nat N) papers"
    using len lenp assms(1) by (simp add: n_def take_Suc_conv_app_nth [symmetric])
  moreover have "map Inr (take (nat N) papers) = map paper_from_arxiv_entry (take (nat N) stream)"
    using papers by (simp add: take_map [symmetric])
  moreover have "int (length (take (nat N) papers)) = N"
    using len lenp assms(1) by (simp add: n_def)
  ultimately show "\<exists>ys w'. query fuel net qs until (Some N) w = (ys, Returned, w')
       \<and> int (length ys) = N
       \<and> map Inr ys = map paper_from_arxiv_entry (take (nat N) (concat (map pages [0..<fuel])))"
    unfolding stream_def [symmetric] by auto
next
  show "\<forall>e rest c p u. paper_from_arxiv_entry e = Inr p \<longrightarrow> N \<le> c + 1 \<longrightarrow>
      for_entries u (Some N) (e # rest) c = ([p], Some Returned, c + 1)"
    by simp
qed

text \<open>Three records from a feed whose every page has two entries.\<close>

theorem query_max_results_witness:
  "query (Suc (Suc (Suc 0)))
       (net_after 0 \<lparr>entries = [entry_at (lit ''a'') [2024, 3, 1, 0, 0, 0],
                                  entry_at (lit ''b'') [2024, 2, 1, 0, 0, 0]]\<rparr>)
       (lit ''cat:cs.LG'') (Some (2024, 1, 1, 0, 0, 0, 0)) (Some 3) [] =
     ([paper_at (lit ''a'') (2024, 3, 1, 0, 0, 0, 0), paper_at (lit ''b'') (2024, 2, 1, 0, 0, 0, 0),
       paper_at (lit ''a'') (2024, 3, 1, 0, 0, 0, 0)],
      Returned,
      [Request (search_url (lit ''cat:cs.LG'') 0 3), Request (search_url (lit ''cat:cs.LG'') 1 3)])"
proof -
  let ?ea = "entry_at (lit ''a'') [2024, 3, 1, 0, 0, 0]"
  let ?eb = "entry_at (lit ''b'') [2024, 2, 1, 0, 0, 0]"
  let ?net = "net_after 0 \<lparr>entries = [?ea, ?eb]\<rparr>"
  let ?q = "lit ''cat:cs.LG''"
  let ?fuel = "Suc (Suc (Suc 0))"
  have h1: "(1::int) \<le> 3" and h2: "nat 3 \<le> ?fuel"
    by simp_all
  have feed: "?net (length (requests []) + p) (search_url ?q (int p) (min 3 1000)) =
      Some \<lparr>entries = (\<lambda>p. [?ea, ?eb]) p\<rparr>" for p
    by (simp add: net_after_def)
  have inf: "(\<lambda>p. [?ea, ?eb]) p \<noteq> []" for p :: nat
    by simp
  have wf: "list_all well_formed ((\<lambda>p. [?ea, ?eb]) p)" for p :: nat
    by (simp add: well_formed_entry_at)
  have dates: "case Some (2024, 1, 1, 0, 0, 0, 0) of None \<Rightarrow> True
      | Some d \<Rightarrow> \<forall>e\<in>set (take (nat 3 - 1) (concat (map (\<lambda>p. [?ea, ?eb]) [0..<?fuel]))).
          \<forall>p. paper_from_arxiv_entry e = Inr p \<longrightarrow> \<not> date_published p < d"
    by (simp add: entry_at_paper)
  from query_max_results [of 3 ?fuel ?net "[]" ?q "\<lambda>p. [?ea, ?eb]" "Some (2024, 1, 1, 0, 0, 0, 0)",
      OF h1 h2 feed inf wf dates]
  obtain ys w' where "query ?fuel ?net ?q (Some (2024, 1, 1, 0, 0, 0, 0)) (Some 3) [] = (ys, Returned, w')"
    "int (length ys) = 3"
    by blast
  moreover have "query ?fuel ?net ?q (Some (2024, 1, 1, 0, 0, 0, 0)) (Some 3) [] =
     ([paper_at (lit ''a'') (2024, 3, 1, 0, 0, 0, 0), paper_at (lit ''b'') (2024, 2, 1, 0, 0, 0, 0),
       paper_at (lit ''a'') (2024, 3, 1, 0, 0, 0, 0)],
      Returned, [Request (search_url ?q 0 3), Request (search_url ?q 1 3)])"
    by (simp add: query_def py_min_def entry_at_paper)
  ultimately show ?thesis by simp
qed

text \<open>
  With \<open>max_results = 0\<close> one record is produced, not none; and with \<open>max_results = 3\<close> and
  an \<open>until\<close> that the second record is older than, two records are produced, not three.
\<close>

theorem query_count_not_exact:
  "query (Suc (Suc 0))
       (net_after 0 \<lparr>entries = [entry_at (lit ''a'') [2024, 3, 1, 0, 0, 0],
                                  entry_at (lit ''b'') [2024, 2, 1, 0, 0, 0]]\<rparr>)
       (lit ''cat:cs.LG'') (Some (2024, 1, 1, 0, 0, 0, 0)) (Some 0) [] =
     ([paper_at (lit ''a'') (2024, 3, 1, 0, 0, 0, 0)], Returned,
      [Request (search_url (lit ''cat:cs.LG'') 0 0)])
   \<and> query (Suc (Suc 0))
       (net_after 0 \<lparr>entries = [entry_at (lit ''a'') [2024, 3, 1, 0, 0, 0],
                                  entry_at (lit ''b'') [2024, 2, 1, 0, 0, 0]]\<rparr>)
       (lit ''cat:cs.LG'') (Some (2024, 2, 15, 0, 0, 0, 0)) (Some 3) [] =
     ([paper_at (lit ''a'') (2024, 3, 1, 0, 0, 0, 0), paper_at (lit ''b'') (2024, 2, 1, 0, 0, 0, 0)],
      Returned, [Request (search_url (lit ''cat:cs.LG'') 0 3)])"
  by (simp add: query_def py_min_def entry_at_paper)

text \<open>
  C3, as amended: for every query with \<open>until\<close> set and \<open>max_results = N\<close>, over a feed
  whose pages are fetched at the first try and whose records have strictly decreasing
  publication dates, if some record of the pages is older than \<open>until\<close> and fewer than
  \<open>N\<close> records are not older, then the iterator yields a prefix of the feed that has
  every record with a publication date \<open>\<ge> until\<close> and exactly one record older than
  \<open>until\<close>, the last one yielded, and returns. And every query with \<open>until\<close> set, over
  any feed, yields at most one record older than \<open>until\<close>.
\<close>

theorem query_stop_by_date:
  "((\<forall>p<fuel. net (length (requests w) + p) (search_url qs (int p) (min N 1000)) =
        Some \<lparr>entries = pages p\<rparr>)
     \<and> map paper_from_arxiv_entry (concat (map pages [0..<fuel])) = map Inr papers
     \<and> sorted_wrt (\<lambda>a b. date_published b < date_published a) papers
     \<and> (\<exists>p\<in>set papers. date_published p < u)
     \<and> int (length (filter (\<lambda>p. \<not> date_published p < u) papers)) < N
    \<longrightarrow> (\<exists>ys w'. query fuel net qs (Some u) (Some N) w = (ys, Returned, w')
         \<and> prefix ys papers
         \<and> filter (\<lambda>p. \<not> date_published p < u) ys = filter (\<lambda>p. \<not> date_published p < u) papers
         \<and> length (filter (\<lambda>p. date_published p < u) ys) = 1
         \<and> date_published (last ys) < u))
   \<and> length (filter (\<lambda>p. date_published p < u)
        (fst (query fuel net qs (Some u) max_results w))) \<le> 1"
proof (intro conjI impI)
  assume h: "(\<forall>p<fuel. net (length (requests w) + p) (search_url qs (int p) (min N 1000)) =
        Some \<lparr>entries = pages p\<rparr>)
     \<and> map paper_from_arxiv_entry (concat (map pages [0..<fuel])) = map Inr papers
     \<and> sorted_wrt (\<lambda>a b. date_published b < date_published a) papers
     \<and> (\<exists>p\<in>set papers. date_published p < u)
     \<and> int (length (filter (\<lambda>p. \<not> date_published p < u) papers)) < N"
  define stream where "stream = concat (map pages [0..<fuel])"
  from h have papers: "map paper_from_arxiv_entry stream = map Inr papers"
    by (simp add: stream_def)
  from h obtain pre b post where split: "papers = pre @ b # post"
    and b: "date_published b < u" and pre: "\<forall>p\<in>set pre. \<not> date_published p < u"
    using split_list_first_prop [of papers "\<lambda>p. date_published p < u"] by blast
  from h have "sorted_wrt (\<lambda>a b. date_published b < date_published a) (pre @ b # post)"
    by (simp add: split)
  then have "\<forall>p\<in>set post. date_published p < date_published b"
    by (simp add: sorted_wrt_append)
  with b have post: "\<forall>p\<in>set post. date_published p < u"
    by (meson less_trans)
  have newer: "filter (\<lambda>p. \<not> date_published p < u) papers = pre"
    using pre b post by (simp add: split)
  define k where "k = length pre"
  have lenp: "length papers = length stream"
    using papers by (metis length_map)
  have k: "k < length stream"
    using lenp by (simp add: k_def split)
  have stream: "stream = take k stream @ stream ! k # drop (Suc k) stream"
    using k by (rule id_take_nth_drop)
  have "map paper_from_arxiv_entry (take k stream) = map Inr (take k papers)"
    using papers by (simp add: take_map [symmetric])
  then have mpre: "map paper_from_arxiv_entry (take k stream) = map Inr pre"
    by (simp add: k_def split)
  have "paper_from_arxiv_entry (stream ! k) = Inr (papers ! k)"
    using papers k lenp by (metis nth_map)
  then have e: "paper_from_arxiv_entry (stream ! k) = Inr b"
    by (simp add: k_def split)
  have "\<exists>w'. query fuel net qs (Some u) (Some N) w = (pre @ [b], Returned, w')"
  proof (rule query_stops_at [where pages = pages and pre = "take k stream"
        and e = "stream ! k" and post = "drop (Suc k) stream"])
    show "net (length (requests w) + p) (search_url qs (int p) (min N 1000)) =
        Some \<lparr>entries = pages p\<rparr>" if "p < fuel" for p
      using h that by blast
    show "concat (map pages [0..<fuel]) = take k stream @ stream ! k # drop (Suc k) stream"
      using stream by (simp add: stream_def)
    show "int (length (take k stream)) < N"
      using h k newer by (simp add: k_def)
    show "case Some u of None \<Rightarrow> True | Some d \<Rightarrow> \<forall>p\<in>set pre. \<not> date_published p < d"
      using pre by simp
    show "N \<le> int (length (take k stream)) + 1
        \<or> (case Some u of None \<Rightarrow> False | Some d \<Rightarrow> date_published b < d)"
      using b by simp
  qed (rule mpre e)+
  then obtain w' where "query fuel net qs (Some u) (Some N) w = (pre @ [b], Returned, w')"
    by blast
  moreover have "prefix (pre @ [b]) papers"
    by (simp add: split)
  moreover have "filter (\<lambda>p. \<not> date_published p < u) (pre @ [b]) =
      filter (\<lambda>p. \<not> date_published p < u) papers"
    using pre b by (simp add: newer)
  moreover have "length (filter (\<lambda>p. date_published p < u) (pre @ [b])) = 1"
    using pre b by simp
  moreover have "date_published (last (pre @ [b])) < u"
    using b by simp
  ultimately show "\<exists>ys w'. query fuel net qs (Some u) (Some N) w = (ys, Returned, w')
         \<and> prefix ys papers
         \<and> filter (\<lambda>p. \<not> date_published p < u) ys = filter (\<lambda>p. \<not> date_published p < u) papers
         \<and> length (filter (\<lambda>p. date_published p < u) ys) = 1
         \<and> date_published (last ys) < u"
    by blast
next
  show "length (filter (\<lambda>p. date_published p < u)
        (fst (query fuel net qs (Some u) max_results w))) \<le> 1"
    using query_while_older [of u fuel net qs max_results 0 0 w] by (simp add: query_def)
qed

text \<open>
  Two pages, three records with decreasing dates, the third older than \<open>until\<close>: all
  three are yielded, the boundary record last.
\<close>

theorem query_stop_by_date_witness:
  "query (Suc (Suc 0))
       (net_of_pages [[entry_at (lit ''a'') [2024, 3, 1, 0, 0, 0],
                       entry_at (lit ''b'') [2024, 2, 1, 0, 0, 0]],
                      [entry_at (lit ''c'') [2024, 1, 1, 0, 0, 0]]])
       (lit ''cat:cs.LG'') (Some (2024, 1, 15, 0, 0, 0, 0)) (Some 10) [] =
     ([paper_at (lit ''a'') (2024, 3, 1, 0, 0, 0, 0), paper_at (lit ''b'') (2024, 2, 1, 0, 0, 0, 0),
       paper_at (lit ''c'') (2024, 1, 1, 0, 0, 0, 0)],
      Returned,
      [Request (search_url (lit ''cat:cs.LG'') 0 10), Request (search_url (lit ''cat:cs.LG'') 1 10)])"
proof -
  let ?ea = "entry_at (lit ''a'') [2024, 3, 1, 0, 0, 0]"
  let ?eb = "entry_at (lit ''b'') [2024, 2, 1, 0, 0, 0]"
  let ?ec = "entry_at (lit ''c'') [2024, 1, 1, 0, 0, 0]"
  let ?pa = "paper_at (lit ''a'') (2024, 3, 1, 0, 0, 0, 0)"
  let ?pb = "paper_at (lit ''b'') (2024, 2, 1, 0, 0, 0, 0)"
  let ?pc = "paper_at (lit ''c'') (2024, 1, 1, 0, 0, 0, 0)"
  let ?ps = "[[?ea, ?eb], [?ec]]"
  let ?pages = "\<lambda>p. if p < length ?ps then ?ps ! p else []"
  let ?u = "(2024, 1, 15, 0, 0, 0, 0) :: datetime"
  let ?q = "lit ''cat:cs.LG''"
  let ?fuel = "Suc (Suc 0)"
  have h: "(\<forall>p<?fuel. net_of_pages ?ps (length (requests []) + p)
          (search_url ?q (int p) (min 10 1000)) = Some \<lparr>entries = ?pages p\<rparr>)
     \<and> map paper_from_arxiv_entry (concat (map ?pages [0..<?fuel])) = map Inr [?pa, ?pb, ?pc]
     \<and> sorted_wrt (\<lambda>a b. date_published b < date_published a) [?pa, ?pb, ?pc]
     \<and> (\<exists>p\<in>set [?pa, ?pb, ?pc]. date_published p < ?u)
     \<and> int (length (filter (\<lambda>p. \<not> date_published p < ?u) [?pa, ?pb, ?pc])) < 10"
    by (simp add: net_of_pages_def entry_at_paper)
  from query_stop_by_date [of ?fuel "net_of_pages ?ps" "[]" ?q 10 ?pages "[?pa, ?pb, ?pc]" ?u] h
  obtain ys w' where "query ?fuel (net_of_pages ?ps) ?q (Some ?u) (Some 10) [] = (ys, Returned, w')"
    "length (filter (\<lambda>p. date_published p < ?u) ys) = 1"
    by blast
  moreover have "query ?fuel (net_of_pages ?ps) ?q (Some ?u) (Some 10) [] =
     ([?pa, ?pb, ?pc], Returned, [Request (search_url ?q 0 10), Request (search_url ?q 1 10)])"
    by (simp add: query_def py_min_def entry_at_paper)
  ultimately show ?thesis by simp
qed

text \<open>
  With \<open>until\<close> set and \<open>max_results = 1\<close> the iterator returns after the first record: the
  second record, whose date is not older than \<open>until\<close>, is not produced, and neither is a
  record older than \<open>until\<close>.
\<close>

theorem query_count_stops_before_date:
  "query (Suc 0)
       (net_of_pages [[entry_at (lit ''a'') [2024, 3, 1, 0, 0, 0],
                       entry_at (lit ''b'') [2024, 2, 1, 0, 0, 0],
                       entry_at (lit ''c'') [2024, 1, 1, 0, 0, 0]]])
       (lit ''cat:cs.LG'') (Some (2024, 1, 15, 0, 0, 0, 0)) (Some 1) [] =
     ([paper_at (lit ''a'') (2024, 3, 1, 0, 0, 0, 0)], Returned,
      [Request (search_url (lit ''cat:cs.LG'') 0 1)])
   \<and> paper_from_arxiv_entry (entry_at (lit ''b'') [2024, 2, 1, 0, 0, 0]) =
       Inr (paper_at (lit ''b'') (2024, 2, 1, 0, 0, 0, 0))
   \<and> \<not> date_published (paper_at (lit ''b'') (2024, 2, 1, 0, 0, 0, 0)) < (2024, 1, 15, 0, 0, 0, 0)
   \<and> date_published (paper_at (lit ''c'') (2024, 1, 1, 0, 0, 0, 0)) < (2024, 1, 15, 0, 0, 0, 0)"
  by (simp add: query_def py_min_def entry_at_paper)

end
